theory Spec2Isabelle
  imports Main "HOL-Library.Sublist"
begin

section \<open>The XML beautifier of domutils.js\<close>

text \<open>
  The development embeds \<^verbatim>\<open>XmlBeautify\<close> of
  \<^verbatim>\<open>DSSEditor/assets/js/domutils.js\<close>: \<^verbatim>\<open>hasXmlDef\<close>, \<^verbatim>\<open>getEncoding\<close>,
  \<^verbatim>\<open>beautify\<close> and the recursive renderer \<^verbatim>\<open>_parseInternally\<close>.

  Strings are \<open>string\<close>, read as sequences of code units. \<^verbatim>\<open>String.prototype.toLowerCase\<close>
  is the host's, like the parser: it is a field of the object the methods are called on, and
  nothing is assumed of it.

  The DOM is the host's, not the repository's. A node is modelled as the object the
  renderer sees: one field for each property the code reads, \<open>None\<close> where the host
  leaves the property \<^verbatim>\<open>undefined\<close> (or \<^verbatim>\<open>null\<close>). The code itself tests
  \<^verbatim>\<open>children\<close>, \<^verbatim>\<open>childNodes\<close>, \<^verbatim>\<open>innerHTML\<close>, \<^verbatim>\<open>tagName\<close> and \<^verbatim>\<open>attributes\<close> against
  \<^verbatim>\<open>undefined\<close>, so all of them are optional here.
\<close>

subsection \<open>Errors\<close>

text \<open>
  \<open>TypeError\<close>: a property read on \<^verbatim>\<open>undefined\<close> or \<^verbatim>\<open>null\<close>.
  \<open>ParseError\<close>: whatever the host's \<^verbatim>\<open>DOMParser\<close> throws.
\<close>

datatype error = TypeError | ParseError

subsection \<open>Strings of the host language\<close>

text \<open>\<^verbatim>\<open>String.prototype.indexOf(pat)\<close>: the first position at which \<open>pat\<close> starts, or -1.\<close>

fun indexOf :: "string \<Rightarrow> string \<Rightarrow> int" where
  "indexOf [] pat = (if pat = [] then 0 else - 1)"
| "indexOf (c # cs) pat =
     (if prefix pat (c # cs) then 0
      else (let i = indexOf cs pat in if i < 0 then - 1 else i + 1))"

text \<open>
  \<^verbatim>\<open>String.prototype.substr(start, length)\<close>: a negative start counts from the end, a
  length that is not positive gives the empty string, and both are clipped to the string.
\<close>

definition substr :: "string \<Rightarrow> int \<Rightarrow> int \<Rightarrow> string" where
  "substr s start len =
     (let st = (if start < 0 then max (int (length s) + start) 0 else start)
      in take (nat len) (drop (nat st) s))"

definition lowerChar :: "char \<Rightarrow> char" where
  "lowerChar c =
     (if c = CHR ''A'' then CHR ''a'' else if c = CHR ''B'' then CHR ''b''
      else if c = CHR ''C'' then CHR ''c'' else if c = CHR ''D'' then CHR ''d''
      else if c = CHR ''E'' then CHR ''e'' else if c = CHR ''F'' then CHR ''f''
      else if c = CHR ''G'' then CHR ''g'' else if c = CHR ''H'' then CHR ''h''
      else if c = CHR ''I'' then CHR ''i'' else if c = CHR ''J'' then CHR ''j''
      else if c = CHR ''K'' then CHR ''k'' else if c = CHR ''L'' then CHR ''l''
      else if c = CHR ''M'' then CHR ''m'' else if c = CHR ''N'' then CHR ''n''
      else if c = CHR ''O'' then CHR ''o'' else if c = CHR ''P'' then CHR ''p''
      else if c = CHR ''Q'' then CHR ''q'' else if c = CHR ''R'' then CHR ''r''
      else if c = CHR ''S'' then CHR ''s'' else if c = CHR ''T'' then CHR ''t''
      else if c = CHR ''U'' then CHR ''u'' else if c = CHR ''V'' then CHR ''v''
      else if c = CHR ''W'' then CHR ''w'' else if c = CHR ''X'' then CHR ''x''
      else if c = CHR ''Y'' then CHR ''y'' else if c = CHR ''Z'' then CHR ''z''
      else c)"

text \<open>
  What the host's \<^verbatim>\<open>toLowerCase\<close> does on a text of ASCII code units: the letters A to Z are
  lowered, every other code unit is kept. It serves to build the hosts of the examples, whose
  texts are ASCII.
\<close>

definition asciiLowerCase :: "string \<Rightarrow> string" where
  "asciiLowerCase s = map lowerChar s"

text \<open>\<^verbatim>\<open>replace(/\r?\n/g, '')\<close>: a line feed goes, together with a carriage return just before it.\<close>

fun removeNewlines :: "string \<Rightarrow> string" where
  "removeNewlines [] = []"
| "removeNewlines [c] = (if c = CHR 0x0A then [] else [c])"
| "removeNewlines (c # d # cs) =
     (if c = CHR 0x0A then removeNewlines (d # cs)
      else if c = CHR 0x0D \<and> d = CHR 0x0A then removeNewlines cs
      else c # removeNewlines (d # cs))"

text \<open>
  \<^verbatim>\<open>.replace(/ /g, '').replace(/\r?\n/g, '').replace(/\n/g, '').replace(/\t/g, '')\<close>,
  the four replacements in the order of the source.
\<close>

definition blankReplaced :: "string \<Rightarrow> string" where
  "blankReplaced s =
     filter (\<lambda>c. c \<noteq> CHR 0x09)
       (filter (\<lambda>c. c \<noteq> CHR 0x0A)
          (removeNewlines (filter (\<lambda>c. c \<noteq> CHR '' '') s)))"

subsection \<open>The objects the code reads\<close>

datatype Attr = Attr (attr_name: string) (attr_textContent: string)

datatype Node = Node
  (tagName: "string option")
  (attributes: "Attr list option")
  (children: "Node list option")
  (childNodes: "Node list option")
  (textContent: "string option")
  (innerHTML: "string option")

text \<open>The document returned by \<^verbatim>\<open>parseFromString\<close>; only its two child accessors are read.\<close>

datatype Document = Document
  (doc_children: "Node list option")
  (doc_childNodes: "Node list option")

text \<open>
  The \<^verbatim>\<open>XmlBeautify\<close> object, with the host it runs in: its field \<^verbatim>\<open>parser\<close>, the
  \<^verbatim>\<open>DOMParser\<close> of the host, and the host's \<^verbatim>\<open>String.prototype.toLowerCase\<close>, which
  \<^verbatim>\<open>getEncoding\<close> calls on the text.
\<close>

datatype XmlBeautify = XmlBeautify
  (parser: "string \<Rightarrow> error + Document")
  (toLowerCase: "string \<Rightarrow> string")

text \<open>
  The \<^verbatim>\<open>data\<close> argument of \<^verbatim>\<open>beautify\<close>, \<^verbatim>\<open>{indent: string, useSelfClosingElement: boolean}\<close>,
  each option \<open>None\<close> when the caller leaves it out.
\<close>

datatype Data = Data (indent: "string option") (data_useSelfClosingElement: "bool option")

record BuildInfo =
  indentText :: string
  xmlText :: string
  useSelfClosingElement :: bool
  indentLevel :: int

subsection \<open>hasXmlDef and getEncoding\<close>

definition hasXmlDef :: "string \<Rightarrow> bool" where
  "hasXmlDef txt = (indexOf txt ''<?xml'' \<ge> 0)"

definition getEncoding :: "XmlBeautify \<Rightarrow> string \<Rightarrow> string option" where
  "getEncoding me txt =
     (if \<not> hasXmlDef txt then None
      else
        (let encodingStartPos = indexOf (toLowerCase me txt) ''encoding=\"''
                                + int (length ''encoding=\"'');
             encodingEndPos = indexOf txt ''\"?>''
         in Some (substr txt encodingStartPos (encodingEndPos - encodingStartPos))))"

subsection \<open>The recursive renderer\<close>

text \<open>The local variables of \<^verbatim>\<open>_parseInternally\<close> that classify the element.\<close>

definition elementTextContent :: "string \<Rightarrow> string" where
  "elementTextContent tc = (if length (blankReplaced tc) = 0 then [] else tc)"

definition elementHasNoChildren :: "Node \<Rightarrow> bool" where
  "elementHasNoChildren element =
     (\<not> (case children element of None \<Rightarrow> False | Some cs \<Rightarrow> length cs > 0)
      \<or> \<not> (case childNodes element of None \<Rightarrow> False | Some cs \<Rightarrow> length cs > 0))"

definition elementHasValueOrChildren :: "string \<Rightarrow> bool" where
  "elementHasValueOrChildren tc = (length (elementTextContent tc) > 0)"

definition elementHasItsValue :: "Node \<Rightarrow> string \<Rightarrow> bool" where
  "elementHasItsValue element tc = (elementHasNoChildren element \<and> elementHasValueOrChildren tc)"

definition isEmptyElement :: "Node \<Rightarrow> string \<Rightarrow> bool" where
  "isEmptyElement element tc = (elementHasNoChildren element \<and> \<not> elementHasValueOrChildren tc)"

text \<open>
  \<^verbatim>\<open>valueOfElement\<close>: \<^verbatim>\<open>val\<close> is \<^verbatim>\<open>innerHTML\<close>, or \<^verbatim>\<open>textContent\<close> where the host has no
  \<^verbatim>\<open>innerHTML\<close>; the value is the text content, wrapped when \<^verbatim>\<open>val\<close> holds both markers.
\<close>

definition valueOfElement :: "Node \<Rightarrow> string \<Rightarrow> string" where
  "valueOfElement element tc =
     (if elementHasItsValue element tc then
        (let val = (case innerHTML element of None \<Rightarrow> tc | Some h \<Rightarrow> h)
         in if indexOf val ''<![CDATA['' \<noteq> - 1 \<and> indexOf val '']]>'' \<noteq> - 1
            then ''<![CDATA['' @ elementTextContent tc @ '']]>''
            else elementTextContent tc)
      else [])"

text \<open>
  \<^verbatim>\<open>var chElements = element.children; if (chElements == undefined) chElements = element.childNodes\<close>
\<close>

definition chElements :: "Node \<Rightarrow> Node list option" where
  "chElements element =
     (case children element of None \<Rightarrow> childNodes element | Some cs \<Rightarrow> Some cs)"

text \<open>The loop \<^verbatim>\<open>for (idx = 0; idx < buildInfo.indentLevel; idx++) indentText += buildInfo.indentText\<close>.\<close>

function indentLoop :: "int \<Rightarrow> int \<Rightarrow> string \<Rightarrow> string \<Rightarrow> string" where
  "indentLoop idx lvl unit acc =
     (if idx < lvl then indentLoop (idx + 1) lvl unit (acc @ unit) else acc)"
  by pat_completeness auto
termination
  by (relation "measure (\<lambda>(idx, lvl, unit, acc). nat (lvl - idx))") auto

declare indentLoop.simps [simp del]

text \<open>The loop over \<^verbatim>\<open>element.attributes\<close>.\<close>

fun attributesText :: "Attr list \<Rightarrow> string" where
  "attributesText [] = []"
| "attributesText (attr # attrs) =
     ('' '' @ attr_name attr @ ''='' @ ''\"'' @ attr_textContent attr @ ''\"'') @ attributesText attrs"

text \<open>
  \<^verbatim>\<open>_parseInternally(element, buildInfo)\<close>, with the mutated \<^verbatim>\<open>buildInfo\<close> returned.
  \<open>parseChildren\<close> is its loop over \<^verbatim>\<open>chElements\<close>. A \<^verbatim>\<open>textContent\<close> of \<^verbatim>\<open>null\<close> fails at
  \<^verbatim>\<open>.replace\<close>, and an element with neither \<^verbatim>\<open>children\<close> nor \<^verbatim>\<open>childNodes\<close> fails at
  \<^verbatim>\<open>chElements.length\<close>.
\<close>

function parseInternally :: "Node \<Rightarrow> BuildInfo \<Rightarrow> error + BuildInfo"
  and parseChildren :: "Node list \<Rightarrow> BuildInfo \<Rightarrow> error + BuildInfo" where
  "parseInternally element buildInfo =
     (case textContent element of
        None \<Rightarrow> Inl TypeError
      | Some tc \<Rightarrow>
          (let useSelfClosing = useSelfClosingElement buildInfo;
               indentTxt = indentLoop 0 (indentLevel buildInfo) (indentText buildInfo) [];
               b1 = buildInfo\<lparr>xmlText := xmlText buildInfo @ indentTxt\<rparr>
           in case tagName element of
                None \<Rightarrow> Inr b1
              | Some tag \<Rightarrow>
                  (let b2 = b1\<lparr>xmlText := xmlText b1 @ ''<'' @ tag\<rparr>;
                       b3 = (case attributes element of
                               None \<Rightarrow> b2
                             | Some attrs \<Rightarrow> b2\<lparr>xmlText := xmlText b2 @ attributesText attrs\<rparr>);
                       b4 = (if isEmptyElement element tc \<and> useSelfClosing
                             then b3\<lparr>xmlText := xmlText b3 @ '' />''\<rparr>
                             else b3\<lparr>xmlText := xmlText b3 @ ''>''\<rparr>);
                       b5 = (if elementHasItsValue element tc
                             then b4\<lparr>xmlText := xmlText b4 @ valueOfElement element tc\<rparr>
                             else if isEmptyElement element tc \<and> \<not> useSelfClosing then b4
                             else b4\<lparr>xmlText := xmlText b4 @ ''\<newline>''\<rparr>);
                       b6 = b5\<lparr>indentLevel := indentLevel b5 + 1\<rparr>
                   in case chElements element of
                        None \<Rightarrow> Inl TypeError
                      | Some chs \<Rightarrow>
                          (case parseChildren chs b6 of
                             Inl err \<Rightarrow> Inl err
                           | Inr b7 \<Rightarrow>
                               (let b8 = b7\<lparr>indentLevel := indentLevel b7 - 1\<rparr>;
                                    endTag = ''</'' @ tag @ ''>''
                                in if isEmptyElement element tc then
                                     (if useSelfClosing then Inr b8
                                      else Inr (b8\<lparr>xmlText := xmlText b8 @ endTag @ ''\<newline>''\<rparr>))
                                   else
                                     (let b9 = (if \<not> (elementHasNoChildren element
                                                       \<and> elementHasValueOrChildren tc)
                                                then b8\<lparr>xmlText := xmlText b8 @ indentTxt\<rparr>
                                                else b8)
                                      in Inr (b9\<lparr>xmlText := xmlText b9 @ endTag @ ''\<newline>''\<rparr>)))))))"
| "parseChildren [] buildInfo = Inr buildInfo"
| "parseChildren (child # rest) buildInfo =
     (case parseInternally child buildInfo of
        Inl err \<Rightarrow> Inl err
      | Inr b \<Rightarrow> parseChildren rest b)"
  by pat_completeness auto

termination
proof (relation "measure (case_sum (\<lambda>p. size (fst p)) (\<lambda>p. size_list size (fst p)))")
  have sub: "chElements element = Some cs \<Longrightarrow> size_list size cs < size element"
    for element :: Node and cs
    by (cases element) (auto simp: chElements_def split: option.splits)
  show "wf (measure (case_sum (\<lambda>p. size (fst p)) (\<lambda>p. size_list size (fst p))))"
    by simp
  show "(Inr (chs, b6), Inl (element, buildInfo))
      \<in> measure (case_sum (\<lambda>p. size (fst p)) (\<lambda>p. size_list size (fst p)))"
    if "chElements element = Some chs"
    for element :: Node and buildInfo :: BuildInfo and chs and b6 :: BuildInfo
    using that sub [of element chs] by simp
qed auto

declare parseInternally.simps [simp del]

subsection \<open>beautify\<close>

text \<open>
  \<^verbatim>\<open>beautify(xmlText, data)\<close>. \<open>data\<close> is \<open>None\<close> when the caller passes no
  configuration. The root is \<^verbatim>\<open>doc.children[0]\<close>, or \<^verbatim>\<open>doc.childNodes[0]\<close> where the document
  has no \<^verbatim>\<open>children\<close>; an empty list gives \<^verbatim>\<open>undefined\<close>, on which the first property read
  of the renderer fails. A \<^verbatim>\<open>null\<close> encoding would be concatenated as the text \<^verbatim>\<open>null\<close>.
\<close>

definition beautify :: "XmlBeautify \<Rightarrow> string \<Rightarrow> Data option \<Rightarrow> error + string" where
  "beautify me txt data =
     (case parser me txt of
        Inl err \<Rightarrow> Inl err
      | Inr doc \<Rightarrow>
          (let indnt = (case data of
                          None \<Rightarrow> ''  ''
                        | Some d \<Rightarrow> (case indent d of
                                       None \<Rightarrow> ''  ''
                                     | Some i \<Rightarrow> if i \<noteq> [] then i else ''  ''));
               useSelfClosing = (case data of
                                   None \<Rightarrow> False
                                 | Some d \<Rightarrow> data_useSelfClosingElement d = Some True);
               xmlHeader = (if hasXmlDef txt
                            then Some (''<?xml version=\"1.0\" encoding=\"''
                                       @ (case getEncoding me txt of None \<Rightarrow> ''null'' | Some e \<Rightarrow> e)
                                       @ ''\"?>'')
                            else None);
               buildInfo = \<lparr>indentText = indnt, xmlText = [],
                            useSelfClosingElement = useSelfClosing, indentLevel = 0\<rparr>
           in case (case doc_children doc of
                      Some cs \<Rightarrow> (case cs of [] \<Rightarrow> Inl TypeError
                                  | root # _ \<Rightarrow> parseInternally root buildInfo)
                    | None \<Rightarrow> (case doc_childNodes doc of
                                 None \<Rightarrow> Inl TypeError
                               | Some [] \<Rightarrow> Inl TypeError
                               | Some (root # _) \<Rightarrow> parseInternally root buildInfo)) of
                Inl err \<Rightarrow> Inl err
              | Inr b \<Rightarrow>
                  Inr ((case xmlHeader of
                          None \<Rightarrow> []
                        | Some h \<Rightarrow> if h \<noteq> [] then h @ ''\<newline>'' else [])
                       @ xmlText b)))"

subsection \<open>Documents as a DOM parser exposes them\<close>

text \<open>
  A text node: no tag name, no attributes, no \<^verbatim>\<open>children\<close> and no \<^verbatim>\<open>innerHTML\<close>, an empty
  \<^verbatim>\<open>childNodes\<close>, and its data as \<^verbatim>\<open>textContent\<close>.
\<close>

definition textNode :: "string \<Rightarrow> Node" where
  "textNode s = Node None None None (Some []) (Some s) None"

text \<open>
  An element of a host that provides \<^verbatim>\<open>children\<close> and \<^verbatim>\<open>innerHTML\<close> on XML elements:
  \<^verbatim>\<open>children\<close> are the child nodes that are elements.
\<close>

definition elementNode :: "string \<Rightarrow> Attr list \<Rightarrow> Node list \<Rightarrow> string \<Rightarrow> string \<Rightarrow> Node" where
  "elementNode tag attrs kids text inner =
     Node (Some tag) (Some attrs) (Some (filter (\<lambda>k. tagName k \<noteq> None) kids)) (Some kids)
       (Some text) (Some inner)"

text \<open>
  The same element in a host whose XML elements have neither \<^verbatim>\<open>children\<close> nor
  \<^verbatim>\<open>innerHTML\<close>: the case the tests against \<^verbatim>\<open>undefined\<close> in the source are for.
\<close>

definition legacyElementNode :: "string \<Rightarrow> Attr list \<Rightarrow> Node list \<Rightarrow> string \<Rightarrow> Node" where
  "legacyElementNode tag attrs kids text =
     Node (Some tag) (Some attrs) None (Some kids) (Some text) None"

definition documentOf :: "Node \<Rightarrow> Document" where
  "documentOf root = Document (Some [root]) (Some [root])"

text \<open>\<^verbatim>\<open><foo></foo>\<close>\<close>

definition doc_foo :: Document where
  "doc_foo = documentOf (elementNode ''foo'' [] [] [] [])"

text \<open>\<^verbatim>\<open><name>Bob</name>\<close>\<close>

definition doc_name :: Document where
  "doc_name = documentOf (elementNode ''name'' [] [textNode ''Bob''] ''Bob'' ''Bob'')"

text \<open>\<^verbatim>\<open><a><b><c>x</c></b></a>\<close>\<close>

definition doc_abc :: Document where
  "doc_abc =
     documentOf
       (elementNode ''a'' []
          [elementNode ''b'' []
             [elementNode ''c'' [] [textNode ''x''] ''x'' ''x'']
             ''x'' ''<c>x</c>'']
          ''x'' ''<b><c>x</c></b>'')"

text \<open>\<^verbatim>\<open><a/>\<close>, with or without a declaration in front of it\<close>

definition doc_a :: Document where
  "doc_a = documentOf (elementNode ''a'' [] [] [] [])"

text \<open>
  A document of a host that has no \<^verbatim>\<open>children\<close> on documents either: the root is taken
  from \<^verbatim>\<open>childNodes\<close>.
\<close>

definition legacyDocumentOf :: "Node \<Rightarrow> Document" where
  "legacyDocumentOf root = Document None (Some [root])"

text \<open>
  \<^verbatim>\<open><name>Bob</name>\<close> and \<^verbatim>\<open><a><b><c>x</c></b></a>\<close> as such a host gives them: no
  \<^verbatim>\<open>children\<close> on the document or on an element, the text nodes among the \<^verbatim>\<open>childNodes\<close>.
\<close>

definition doc_name_legacy :: Document where
  "doc_name_legacy = legacyDocumentOf (legacyElementNode ''name'' [] [textNode ''Bob''] ''Bob'')"

definition doc_abc_legacy :: Document where
  "doc_abc_legacy =
     legacyDocumentOf
       (legacyElementNode ''a'' []
          [legacyElementNode ''b'' []
             [legacyElementNode ''c'' [] [textNode ''x''] ''x'']
             ''x'']
          ''x'')"

subsection \<open>Notions used to state the properties\<close>

text \<open>
  The text \<^verbatim>\<open>buildInfo.xmlText\<close> holds when \<^verbatim>\<open>beautify\<close> has rendered the root, before the
  declaration line is put in front: \<open>beautify\<close> with the header left out.
\<close>

definition renderedText :: "XmlBeautify \<Rightarrow> string \<Rightarrow> Data option \<Rightarrow> error + string" where
  "renderedText me txt data =
     (case parser me txt of
        Inl err \<Rightarrow> Inl err
      | Inr doc \<Rightarrow>
          (let buildInfo =
                 \<lparr>indentText = (case data of
                                  None \<Rightarrow> ''  ''
                                | Some d \<Rightarrow> (case indent d of
                                               None \<Rightarrow> ''  ''
                                             | Some i \<Rightarrow> if i \<noteq> [] then i else ''  '')),
                  xmlText = [],
                  useSelfClosingElement = (case data of
                                             None \<Rightarrow> False
                                           | Some d \<Rightarrow> data_useSelfClosingElement d = Some True),
                  indentLevel = 0\<rparr>
           in case (case doc_children doc of
                      Some cs \<Rightarrow> (case cs of [] \<Rightarrow> Inl TypeError
                                  | root # _ \<Rightarrow> parseInternally root buildInfo)
                    | None \<Rightarrow> (case doc_childNodes doc of
                                 None \<Rightarrow> Inl TypeError
                               | Some [] \<Rightarrow> Inl TypeError
                               | Some (root # _) \<Rightarrow> parseInternally root buildInfo)) of
                Inl err \<Rightarrow> Inl err
              | Inr b \<Rightarrow> Inr (xmlText b)))"

text \<open>
  The indentation a call emits: \<^verbatim>\<open>indentLevel\<close> copies of the indent unit. The text an element
  emits before its children are rendered (start tag, then the value or the line break), and
  the text it emits after them (the end tag, indented unless the element is empty or has its
  value).
\<close>

definition indentation :: "BuildInfo \<Rightarrow> string" where
  "indentation b = concat (replicate (nat (indentLevel b)) (indentText b))"

definition startText :: "Node \<Rightarrow> string \<Rightarrow> string \<Rightarrow> bool \<Rightarrow> string" where
  "startText element tc tag useSelfClosing =
     ''<'' @ tag
     @ (case attributes element of None \<Rightarrow> [] | Some attrs \<Rightarrow> attributesText attrs)
     @ (if isEmptyElement element tc \<and> useSelfClosing then '' />'' else ''>'')
     @ (if elementHasItsValue element tc then valueOfElement element tc
        else if isEmptyElement element tc \<and> \<not> useSelfClosing then []
        else ''\<newline>'')"

definition endText :: "Node \<Rightarrow> string \<Rightarrow> string \<Rightarrow> bool \<Rightarrow> string \<Rightarrow> string" where
  "endText element tc tag useSelfClosing ind =
     (if isEmptyElement element tc then
        (if useSelfClosing then [] else ''</'' @ tag @ ''>'' @ ''\<newline>'')
      else (if elementHasItsValue element tc then [] else ind) @ ''</'' @ tag @ ''>'' @ ''\<newline>'')"

text \<open>
  \<open>visits element b k e' b'\<close>: the call of the renderer on \<open>element\<close> in state \<open>b\<close> leads,
  \<open>k\<close> levels further down the tree, to a call on \<open>e'\<close> in state \<open>b'\<close>. The state a child
  is called in is the one the loop has reached after the children before it.
\<close>

inductive visits :: "Node \<Rightarrow> BuildInfo \<Rightarrow> nat \<Rightarrow> Node \<Rightarrow> BuildInfo \<Rightarrow> bool" where
  visits_here: "visits element b 0 element b"
| visits_below:
    "textContent element = Some tc \<Longrightarrow> tagName element = Some tag
     \<Longrightarrow> chElements element = Some (before @ child # after)
     \<Longrightarrow> parseChildren before
           (b\<lparr>xmlText := xmlText b @ indentation b @ startText element tc tag (useSelfClosingElement b),
              indentLevel := indentLevel b + 1\<rparr>) = Inr bc
     \<Longrightarrow> visits child bc k e' b'
     \<Longrightarrow> visits element b (Suc k) e' b'"

text \<open>
  The nodes on which the renderer does not fail: the text content is not \<^verbatim>\<open>null\<close>, and an
  element has a list of children to walk, all of them such nodes.
\<close>

function renderable :: "Node \<Rightarrow> bool" where
  "renderable element =
     (textContent element \<noteq> None \<and>
      (tagName element = None \<or>
       (case chElements element of
          None \<Rightarrow> False
        | Some cs \<Rightarrow> \<forall>c \<in> set cs. renderable c)))"
  by pat_completeness auto
termination
proof (relation "measure size")
  show "wf (measure size)" by simp
  show "(c, element) \<in> measure size"
    if "chElements element = Some cs" and "c \<in> set cs" for element :: Node and cs c
  proof -
    have "size_list size cs < size element"
      using that(1) by (cases element) (auto simp: chElements_def split: option.splits)
    moreover have "size c \<le> size_list size cs"
      using that(2) by (simp add: size_list_estimation')
    ultimately show ?thesis by simp
  qed
qed

declare renderable.simps [simp del]

text \<open>\<open>appends b b'\<close>: \<open>b'\<close> is \<open>b\<close> with more text at the end of \<^verbatim>\<open>xmlText\<close>, and nothing else changed.\<close>

definition appends :: "BuildInfo \<Rightarrow> BuildInfo \<Rightarrow> bool" where
  "appends b b' = (\<exists>out. b' = b\<lparr>xmlText := xmlText b @ out\<rparr>)"

text \<open>
  The wording of the specification for the encoding: the text strictly between the end of the
  first \<^verbatim>\<open>encoding="\<close>, found in the text itself without regard to case (the code units at
  the position, lower-cased, are the marker), and the \<^verbatim>\<open>"?>\<close> that follows it.
\<close>

fun indexOfIgnoringCase :: "(string \<Rightarrow> string) \<Rightarrow> string \<Rightarrow> string \<Rightarrow> int" where
  "indexOfIgnoringCase lower [] pat = (if lower [] = pat then 0 else - 1)"
| "indexOfIgnoringCase lower (c # cs) pat =
     (if lower (take (length pat) (c # cs)) = pat then 0
      else (let i = indexOfIgnoringCase lower cs pat in if i < 0 then - 1 else i + 1))"

definition encodingBetweenMarkers :: "(string \<Rightarrow> string) \<Rightarrow> string \<Rightarrow> string" where
  "encodingBetweenMarkers lower txt =
     (let rest = drop (nat (indexOfIgnoringCase lower txt ''encoding=\"'')
                       + length ''encoding=\"'') txt
      in take (nat (indexOf rest ''\"?>'')) rest)"

section \<open>Properties\<close>

subsection \<open>indexOf finds the first occurrence of a substring\<close>


lemma indexOf_nonneg_iff: "0 \<le> indexOf s pat \<longleftrightarrow> sublist pat s"
proof (induction s)
  case Nil
  then show ?case by simp
next
  case (Cons c cs)
  then show ?case
    by (auto simp: Let_def sublist_Cons_right)
qed

lemma hasXmlDef_iff: "hasXmlDef txt \<longleftrightarrow> sublist ''<?xml'' txt"
  by (simp add: hasXmlDef_def indexOf_nonneg_iff)

lemma indexOf_drop:
  "indexOf s pat = int q \<Longrightarrow> n \<le> q \<Longrightarrow> indexOf (drop n s) pat = int (q - n)"
proof (induction s arbitrary: q n)
  case Nil
  then show ?case by (auto split: if_splits)
next
  case (Cons c cs)
  show ?case
  proof (cases n)
    case 0
    with Cons.prems show ?thesis by simp
  next
    case (Suc m)
    with Cons.prems have q: "0 < q" by simp
    with Cons.prems(1) have np: "\<not> prefix pat (c # cs)" by (auto split: if_splits)
    with Cons.prems(1) q have "indexOf cs pat = int (q - 1)"
      by (auto simp: Let_def split: if_splits)
    from Cons.IH [OF this, of m] Suc Cons.prems(2) show ?thesis by simp
  qed
qed

lemma indexOf_first:
  "indexOf s pat = int q \<Longrightarrow> prefix pat (drop q s) \<and> (\<forall>j < q. \<not> prefix pat (drop j s))"
proof (induction s arbitrary: q)
  case Nil
  then show ?case by (auto split: if_splits)
next
  case (Cons c cs)
  show ?case
  proof (cases "prefix pat (c # cs)")
    case True
    with Cons.prems show ?thesis by simp
  next
    case False
    with Cons.prems have q: "0 < q" and i: "indexOf cs pat = int (q - 1)"
      by (auto simp: Let_def split: if_splits)
    from Cons.IH [OF i] have 1: "prefix pat (drop (q - 1) cs)"
      and 2: "\<forall>j < q - 1. \<not> prefix pat (drop j cs)" by simp_all
    have "\<not> prefix pat (drop j (c # cs))" if "j < q" for j
    proof (cases j)
      case 0
      with False show ?thesis by simp
    next
      case (Suc k)
      with that 2 show ?thesis by simp
    qed
    moreover from 1 q have "prefix pat (drop q (c # cs))"
      by (cases q) simp_all
    ultimately show ?thesis by blast
  qed
qed


text \<open>
  Where lower-casing maps the code units one by one, searching the lower-cased text and
  searching the text without regard to case find the same position.
\<close>

lemma prefix_iff_take: "prefix pat xs \<longleftrightarrow> take (length pat) xs = pat"
proof
  assume "prefix pat xs"
  then obtain zs where "xs = pat @ zs" by (auto simp: prefix_def)
  then show "take (length pat) xs = pat" by simp
next
  assume "take (length pat) xs = pat"
  then have "xs = pat @ drop (length pat) xs" by (metis append_take_drop_id)
  then show "prefix pat xs" by (metis prefixI)
qed

lemma indexOfIgnoringCase_map:
  assumes "\<forall>s. set s \<subseteq> A \<longrightarrow> lower s = map lc s" and "set xs \<subseteq> A"
  shows "indexOfIgnoringCase lower xs pat = indexOf (map lc xs) pat"
  using assms(2)
proof (induction xs)
  case Nil
  from assms(1) have "lower [] = []" by simp
  then show ?case by auto
next
  case (Cons c cs)
  have "set (take (length pat) (c # cs)) \<subseteq> A"
    using Cons.prems set_take_subset [of "length pat" "c # cs"] by blast
  with assms(1) have "lower (take (length pat) (c # cs)) = map lc (take (length pat) (c # cs))"
    by blast
  also have "\<dots> = take (length pat) (map lc (c # cs))"
    by (simp only: take_map)
  finally have t: "lower (take (length pat) (c # cs)) = pat \<longleftrightarrow> prefix pat (map lc (c # cs))"
    by (simp only: prefix_iff_take)
  from Cons have i: "indexOfIgnoringCase lower cs pat = indexOf (map lc cs) pat"
    by simp
  have "indexOfIgnoringCase lower (c # cs) pat
      = (if lower (take (length pat) (c # cs)) = pat then 0
         else (let i = indexOfIgnoringCase lower cs pat in if i < 0 then - 1 else i + 1))"
    by (simp only: indexOfIgnoringCase.simps)
  also have "\<dots> = (if prefix pat (map lc (c # cs)) then 0
         else (let i = indexOf (map lc cs) pat in if i < 0 then - 1 else i + 1))"
    by (simp only: t i)
  also have "\<dots> = indexOf (map lc (c # cs)) pat"
    by (simp only: list.map indexOf.simps)
  finally show ?case .
qed

subsection \<open>The renderer, unfolded\<close>

lemma indentLoop_eq:
  "indentLoop idx lvl unit acc = acc @ concat (replicate (nat (lvl - idx)) unit)"
proof (induction idx lvl unit acc rule: indentLoop.induct)
  case (1 idx lvl unit acc)
  show ?case
  proof (cases "idx < lvl")
    case True
    then have "nat (lvl - idx) = Suc (nat (lvl - (idx + 1)))" by simp
    with True 1 show ?thesis by (simp add: indentLoop.simps [of idx])
  next
    case False
    then show ?thesis by (simp add: indentLoop.simps [of idx])
  qed
qed

lemma parseInternally_unfold:
  "parseInternally element b =
     (case textContent element of
        None \<Rightarrow> Inl TypeError
      | Some tc \<Rightarrow>
          (case tagName element of
             None \<Rightarrow> Inr (b\<lparr>xmlText := xmlText b @ indentation b\<rparr>)
           | Some tag \<Rightarrow>
               (case chElements element of
                  None \<Rightarrow> Inl TypeError
                | Some chs \<Rightarrow>
                    (case parseChildren chs
                            (b\<lparr>xmlText := xmlText b @ indentation b
                                   @ startText element tc tag (useSelfClosingElement b),
                               indentLevel := indentLevel b + 1\<rparr>) of
                       Inl err \<Rightarrow> Inl err
                     | Inr b7 \<Rightarrow>
                         Inr (b7\<lparr>xmlText := xmlText b7
                                   @ endText element tc tag (useSelfClosingElement b) (indentation b),
                                 indentLevel := indentLevel b7 - 1\<rparr>)))))"
  by (simp add: parseInternally.simps [of element] indentLoop_eq indentation_def startText_def
        endText_def Let_def elementHasItsValue_def isEmptyElement_def
      split: option.splits sum.splits)


subsection \<open>Only text is appended; the depth is restored\<close>

lemma size_chElements:
  "chElements element = Some cs \<Longrightarrow> c \<in> set cs \<Longrightarrow> size c < size element"
proof -
  assume a: "chElements element = Some cs" and b: "c \<in> set cs"
  have "size_list size cs < size element"
    using a by (cases element) (auto simp: chElements_def split: option.splits)
  moreover have "size c \<le> size_list size cs"
    using b by (simp add: size_list_estimation')
  ultimately show ?thesis by simp
qed

lemma appends_refl: "appends b b"
  unfolding appends_def by (rule exI [of _ "[]"]) simp

lemma appends_trans: "appends b b' \<Longrightarrow> appends b' b'' \<Longrightarrow> appends b b''"
  by (auto simp: appends_def)

lemma appendsD:
  "appends b b' \<Longrightarrow> indentLevel b' = indentLevel b \<and> indentText b' = indentText b
     \<and> useSelfClosingElement b' = useSelfClosingElement b"
  by (auto simp: appends_def)

lemma parseChildren_appends:
  assumes "\<And>c b b'. c \<in> set cs \<Longrightarrow> parseInternally c b = Inr b' \<Longrightarrow> appends b b'"
    and "parseChildren cs b = Inr b'"
  shows "appends b b'"
  using assms
proof (induction cs arbitrary: b)
  case Nil
  then show ?case by (simp add: appends_refl)
next
  case (Cons c cs)
  from Cons.prems(2) obtain b1 where 1: "parseInternally c b = Inr b1"
    and 2: "parseChildren cs b1 = Inr b'"
    by (auto split: sum.splits)
  have "appends b b1" using Cons.prems(1) [of c b b1] 1 by simp
  moreover have "appends b1 b'" using Cons.IH [OF _ 2] Cons.prems(1) by auto
  ultimately show ?case by (rule appends_trans)
qed

lemma parseInternally_appends:
  "parseInternally element b = Inr b' \<Longrightarrow> appends b b'"
proof (induction element arbitrary: b b' rule: measure_induct_rule [where f = size])
  case (less element)
  show ?case
  proof (cases "tagName element")
    case None
    with less.prems show ?thesis
      by (auto simp: parseInternally_unfold [of element] appends_def split: option.splits)
  next
    case (Some tag)
    from less.prems Some obtain tc chs b7 where tc: "textContent element = Some tc"
      and chs: "chElements element = Some chs"
      and kids: "parseChildren chs
                   (b\<lparr>xmlText := xmlText b @ indentation b
                          @ startText element tc tag (useSelfClosingElement b),
                      indentLevel := indentLevel b + 1\<rparr>) = Inr b7"
      and res: "b' = b7\<lparr>xmlText := xmlText b7
                       @ endText element tc tag (useSelfClosingElement b) (indentation b),
                     indentLevel := indentLevel b7 - 1\<rparr>"
      by (auto simp: parseInternally_unfold [of element] split: option.splits sum.splits)
    have "appends (b\<lparr>xmlText := xmlText b @ indentation b
                          @ startText element tc tag (useSelfClosingElement b),
                      indentLevel := indentLevel b + 1\<rparr>) b7"
      using parseChildren_appends [OF _ kids] less.IH size_chElements [OF chs] by blast
    then show ?thesis
      unfolding res appends_def by auto
  qed
qed

lemma parseChildren_appends':
  "parseChildren cs b = Inr b' \<Longrightarrow> appends b b'"
  using parseChildren_appends parseInternally_appends by blast

lemma visits_level:
  "visits element b k e' b' \<Longrightarrow>
     indentLevel b' = indentLevel b + int k \<and> indentText b' = indentText b
     \<and> useSelfClosingElement b' = useSelfClosingElement b"
proof (induction rule: visits.induct)
  case (visits_here element b)
  then show ?case by simp
next
  case (visits_below element tc tag before child after b bc k e' b')
  from appendsD [OF parseChildren_appends' [OF visits_below.hyps(4)]] visits_below.IH
  show ?case by simp
qed

lemma parseChildren_total:
  assumes "\<And>c b. c \<in> set cs \<Longrightarrow> \<exists>b'. parseInternally c b = Inr b'"
  shows "\<exists>b'. parseChildren cs b = Inr b'"
  using assms
proof (induction cs arbitrary: b)
  case Nil
  then show ?case by simp
next
  case (Cons c cs)
  from Cons.prems [of c b] obtain b1 where "parseInternally c b = Inr b1" by auto
  moreover from Cons.IH [of b1] Cons.prems obtain b2 where "parseChildren cs b1 = Inr b2"
    by auto
  ultimately show ?case by simp
qed

lemma renderable_returns:
  "renderable element \<Longrightarrow> \<exists>b'. parseInternally element b = Inr b'"
proof (induction element arbitrary: b rule: measure_induct_rule [where f = size])
  case (less element)
  from less.prems obtain tc where tc: "textContent element = Some tc"
    by (auto simp: renderable.simps [of element])
  show ?case
  proof (cases "tagName element")
    case None
    with tc show ?thesis by (simp add: parseInternally_unfold [of element])
  next
    case (Some tag)
    with less.prems obtain chs where chs: "chElements element = Some chs"
      and all: "\<forall>c \<in> set chs. renderable c"
      by (auto simp: renderable.simps [of element] split: option.splits)
    have "\<exists>b'. parseChildren chs b0 = Inr b'" for b0
      using parseChildren_total [of chs b0] less.IH size_chElements [OF chs] all by blast
    then show ?thesis
    proof -
      obtain b7 where "parseChildren chs
                   (b\<lparr>xmlText := xmlText b @ indentation b
                          @ startText element tc tag (useSelfClosingElement b),
                      indentLevel := indentLevel b + 1\<rparr>) = Inr b7"
        using \<open>\<And>b0. \<exists>b'. parseChildren chs b0 = Inr b'\<close> by blast
      then show ?thesis
        using tc Some chs by (simp add: parseInternally_unfold [of element])
    qed
  qed
qed


subsection \<open>The calls the renderer makes\<close>

text \<open>
  \<open>visits\<close> describes calls of the renderer: when the call on an element returns, the call on
  each node it visits returns too, in the state \<open>visits\<close> gives, and its output is a segment
  of the output of the element; every child of the element is visited.
\<close>

lemma appends_prefix: "appends b b' \<Longrightarrow> prefix (xmlText b) (xmlText b')"
  by (auto simp: appends_def)

lemma parseChildren_append:
  "parseChildren (xs @ ys) b =
     (case parseChildren xs b of Inl err \<Rightarrow> Inl err | Inr b1 \<Rightarrow> parseChildren ys b1)"
  by (induction xs arbitrary: b) (auto split: sum.splits)

lemma visits_sound:
  assumes "visits element b k e' b'" and "parseInternally element b = Inr r"
  shows "\<exists>r'. parseInternally e' b' = Inr r' \<and> prefix (xmlText b) (xmlText b')
            \<and> prefix (xmlText b') (xmlText r') \<and> prefix (xmlText r') (xmlText r)"
  using assms
proof (induction arbitrary: r rule: visits.induct)
  case (visits_here element b)
  then show ?case
    using appends_prefix [OF parseInternally_appends] by auto
next
  case (visits_below element tc tag before child after b bc k e' b')
  let ?start = "b\<lparr>xmlText := xmlText b @ indentation b
                        @ startText element tc tag (useSelfClosingElement b),
                    indentLevel := indentLevel b + 1\<rparr>"
  from visits_below.prems visits_below.hyps(1-3) obtain b7
    where all: "parseChildren (before @ child # after) ?start = Inr b7"
      and res: "r = b7\<lparr>xmlText := xmlText b7
                       @ endText element tc tag (useSelfClosingElement b) (indentation b),
                     indentLevel := indentLevel b7 - 1\<rparr>"
    by (auto simp: parseInternally_unfold [of element] split: sum.splits)
  from all visits_below.hyps(4) obtain rc
    where child: "parseInternally child bc = Inr rc" and rest: "parseChildren after rc = Inr b7"
    by (auto simp: parseChildren_append split: sum.splits)
  from visits_below.IH [OF child] obtain r'
    where r': "parseInternally e' b' = Inr r'" and 1: "prefix (xmlText bc) (xmlText b')"
      and 2: "prefix (xmlText b') (xmlText r')" and 3: "prefix (xmlText r') (xmlText rc)"
    by blast
  have "prefix (xmlText b) (xmlText ?start)" by simp
  also have "prefix (xmlText ?start) (xmlText bc)"
    using appends_prefix [OF parseChildren_appends' [OF visits_below.hyps(4)]] .
  also note 1
  finally have p1: "prefix (xmlText b) (xmlText b')" .
  have "prefix (xmlText rc) (xmlText b7)"
    using appends_prefix [OF parseChildren_appends' [OF rest]] .
  also have "prefix (xmlText b7) (xmlText r)" by (simp add: res)
  finally have "prefix (xmlText rc) (xmlText r)" .
  with 3 have p3: "prefix (xmlText r') (xmlText r)" by (rule prefix_order.trans)
  from r' p1 2 p3 show ?case by blast
qed

lemma visits_children:
  assumes "parseInternally element b = Inr r" and "tagName element = Some tag"
    and "chElements element = Some chs" and "i < length chs"
  shows "\<exists>bi. visits element b 1 (chs ! i) bi"
proof -
  from assms(1) obtain tc where tc: "textContent element = Some tc"
    by (auto simp: parseInternally_unfold [of element] split: option.splits)
  let ?start = "b\<lparr>xmlText := xmlText b @ indentation b
                        @ startText element tc tag (useSelfClosingElement b),
                    indentLevel := indentLevel b + 1\<rparr>"
  from assms(1-3) tc obtain b7 where all: "parseChildren chs ?start = Inr b7"
    by (auto simp: parseInternally_unfold [of element] split: sum.splits)
  have split: "chs = take i chs @ chs ! i # drop (Suc i) chs"
    using assms(4) by (rule id_take_nth_drop)
  with all have "parseChildren (take i chs @ chs ! i # drop (Suc i) chs) ?start = Inr b7"
    by simp
  then obtain bi where bi: "parseChildren (take i chs) ?start = Inr bi"
    by (auto simp: parseChildren_append split: sum.splits)
  have "visits (chs ! i) bi 0 (chs ! i) bi" by (rule visits_here)
  with tc assms(2) bi have "visits element b (Suc 0) (chs ! i) bi"
    using visits_below [of element tc tag "take i chs" "chs ! i" "drop (Suc i) chs" b bi 0 "chs ! i" bi]
      assms(3) split by simp
  then show ?thesis by auto
qed

lemma visits_trans:
  "visits element b k e' b' \<Longrightarrow> visits e' b' j e'' b'' \<Longrightarrow> visits element b (k + j) e'' b''"
proof (induction rule: visits.induct)
  case (visits_here element b)
  then show ?case by simp
next
  case (visits_below element tc tag before child after b bc k e' b')
  from visits_below.IH [OF visits_below.prems] visits_below.hyps(1-4)
  show ?case using visits.visits_below by simp
qed

subsection \<open>beautify is the declaration line and the rendered text\<close>

lemma beautify_rendered:
  "beautify me txt data =
     (case renderedText me txt data of
        Inl err \<Rightarrow> Inl err
      | Inr r \<Rightarrow>
          Inr ((if hasXmlDef txt
                then ''<?xml version=\"1.0\" encoding=\"''
                     @ (case getEncoding me txt of None \<Rightarrow> ''null'' | Some e \<Rightarrow> e)
                     @ ''\"?>'' @ ''\<newline>''
                else []) @ r))"
  by (simp add: beautify_def renderedText_def Let_def split: sum.splits option.splits list.splits)

subsection \<open>Evaluating the renderer on a given document\<close>

lemmas dom_defs =
  documentOf_def legacyDocumentOf_def elementNode_def legacyElementNode_def textNode_def

lemmas class_defs =
  elementHasNoChildren_def elementHasValueOrChildren_def elementHasItsValue_def
  isEmptyElement_def elementTextContent_def blankReplaced_def valueOfElement_def chElements_def

lemmas render_defs = indentation_def startText_def endText_def

lemma hasItsValue_not_empty: "elementHasItsValue e tc \<Longrightarrow> \<not> isEmptyElement e tc"
  by (simp add: elementHasItsValue_def isEmptyElement_def)

text \<open>
  Where the host gives \<^verbatim>\<open>children\<close> as the child nodes that are elements, an element without
  children by the renderer's test has an empty list of children to walk.
\<close>

lemma no_children_to_walk:
  "childNodes e = Some kids \<Longrightarrow> children e = Some (filter (\<lambda>k. tagName k \<noteq> None) kids)
   \<Longrightarrow> elementHasNoChildren e \<Longrightarrow> chElements e = Some []"
  by (auto simp: elementHasNoChildren_def chElements_def)

text \<open>
  An element that has its value and an empty list of children to walk, as every leaf of a
  host that gives \<^verbatim>\<open>children\<close> as the child nodes that are elements: the end tag follows the
  value at once.
\<close>

lemma leaf_closes_inline:
  assumes "tagName e = Some tag" and "textContent e = Some tc" and "elementHasItsValue e tc"
    and "chElements e = Some []
         \<or> childNodes e = Some kids \<and> children e = Some (filter (\<lambda>k. tagName k \<noteq> None) kids)"
  shows "parseInternally e b =
        Inr (b\<lparr>xmlText := xmlText b @ indentation b @ ''<'' @ tag
                    @ (case attributes e of None \<Rightarrow> [] | Some attrs \<Rightarrow> attributesText attrs)
                    @ ''>'' @ valueOfElement e tc @ ''</'' @ tag @ ''>'' @ ''\<newline>''\<rparr>)"
proof -
  from assms(3) have ne: "\<not> isEmptyElement e tc" by (simp add: hasItsValue_not_empty)
  from assms(3) have "elementHasNoChildren e" by (simp add: elementHasItsValue_def)
  with assms(4) have leaf: "chElements e = Some []"
    using no_children_to_walk [of e kids] by blast
  from assms(1-3) ne leaf show ?thesis
    by (simp add: parseInternally_unfold [of e] startText_def endText_def)
qed

subsection \<open>What a call on an element appends\<close>

lemma element_output:
  assumes "tagName e = Some tag" and "parseInternally e b = Inr b'"
  shows "\<exists>tc kids. textContent e = Some tc \<and>
           xmlText b' = xmlText b @ indentation b @ startText e tc tag (useSelfClosingElement b)
                        @ kids @ endText e tc tag (useSelfClosingElement b) (indentation b)"
proof -
  from assms obtain tc chs b7 where tc: "textContent e = Some tc"
    and kids: "parseChildren chs
                 (b\<lparr>xmlText := xmlText b @ indentation b
                        @ startText e tc tag (useSelfClosingElement b),
                    indentLevel := indentLevel b + 1\<rparr>) = Inr b7"
    and res: "b' = b7\<lparr>xmlText := xmlText b7
                     @ endText e tc tag (useSelfClosingElement b) (indentation b),
                   indentLevel := indentLevel b7 - 1\<rparr>"
    by (auto simp: parseInternally_unfold [of e] split: option.splits sum.splits)
  from parseChildren_appends' [OF kids] obtain out where
    "xmlText b7 = xmlText b @ indentation b @ startText e tc tag (useSelfClosingElement b) @ out"
    by (auto simp: appends_def)
  with tc res show ?thesis by auto
qed

lemma visits_indentation:
  assumes "visits root b0 k e b" and "0 \<le> indentLevel b0"
  shows "indentation b = concat (replicate (nat (indentLevel b0) + k) (indentText b0))"
proof -
  from visits_level [OF assms(1)] have "indentLevel b = indentLevel b0 + int k"
    and "indentText b = indentText b0" by simp_all
  moreover have "nat (indentLevel b0 + int k) = nat (indentLevel b0) + k"
    using assms(2) by simp
  ultimately show ?thesis by (simp add: indentation_def)
qed

lemma visited_start_tag:
  assumes "visits root b0 k e b" and "parseInternally root b0 = Inr r"
    and "tagName e = Some tag" and "0 \<le> indentLevel b0"
  shows "\<exists>post. xmlText r = xmlText b @ concat (replicate (nat (indentLevel b0) + k) (indentText b0))
                              @ ''<'' @ tag @ post"
proof -
  from visits_sound [OF assms(1,2)] obtain r' where r': "parseInternally e b = Inr r'"
    and p: "prefix (xmlText r') (xmlText r)" by blast
  from element_output [OF assms(3) r'] obtain tc kids where
    "xmlText r' = xmlText b @ indentation b @ startText e tc tag (useSelfClosingElement b)
                        @ kids @ endText e tc tag (useSelfClosingElement b) (indentation b)"
    by blast
  then have "\<exists>rest. xmlText r' = xmlText b @ indentation b @ ''<'' @ tag @ rest"
    by (simp add: startText_def)
  then obtain rest where "xmlText r' = xmlText b @ indentation b @ ''<'' @ tag @ rest" by blast
  moreover from p obtain more where "xmlText r = xmlText r' @ more" by (auto simp: prefix_def)
  ultimately have "xmlText r = xmlText b @ indentation b @ ''<'' @ tag @ (rest @ more)" by simp
  with visits_indentation [OF assms(1,4)] show ?thesis by metis
qed

subsection \<open>The value of a leaf, and nodes that are not elements\<close>



lemma set_indentation: "set (indentation b) \<subseteq> set (indentText b)"
  by (auto simp: indentation_def)

section \<open>The claims\<close>

text \<open>
  C1. For the input \<^verbatim>\<open><foo></foo>\<close>, \<^verbatim>\<open>beautify\<close> with \<^verbatim>\<open>useSelfClosingElement\<close> true returns
  exactly \<^verbatim>\<open><foo />\<close> and a line feed (a space before the slash, no end tag); with
  \<^verbatim>\<open>useSelfClosingElement\<close> false it returns exactly \<^verbatim>\<open><foo></foo>\<close> and a line feed. No
  declaration line is put in front in either case. The document is the one the parser gives
  for this text: an element \<^verbatim>\<open>foo\<close> with no attributes and no child nodes, in a host with
  \<^verbatim>\<open>children\<close> or in one without. The indent option is arbitrary.
\<close>

theorem beautify_foo:
  "parser me ''<foo></foo>'' = Inr doc_foo
     \<or> parser me ''<foo></foo>'' = Inr (legacyDocumentOf (legacyElementNode ''foo'' [] [] [])) \<Longrightarrow>
   beautify me ''<foo></foo>'' (Some (Data ind (Some True))) = Inr ''<foo />\<newline>''
   \<and> beautify me ''<foo></foo>'' (Some (Data ind (Some False))) = Inr ''<foo></foo>\<newline>''"
  by (auto simp: beautify_def hasXmlDef_def doc_foo_def dom_defs parseInternally_unfold
      class_defs render_defs Let_def)

theorem beautify_foo_witness:
  "parser (XmlBeautify (\<lambda>_. Inr doc_foo) asciiLowerCase) ''<foo></foo>'' = Inr doc_foo
   \<and> beautify (XmlBeautify (\<lambda>_. Inr doc_foo) asciiLowerCase) ''<foo></foo>'' (Some (Data (Some ''  '') (Some True)))
       = Inr ''<foo />\<newline>''
   \<and> beautify (XmlBeautify (\<lambda>_. Inr doc_foo) asciiLowerCase) ''<foo></foo>'' (Some (Data (Some ''  '') (Some False)))
       = Inr ''<foo></foo>\<newline>''
   \<and> parser (XmlBeautify (\<lambda>_. Inr (legacyDocumentOf (legacyElementNode ''foo'' [] [] []))) asciiLowerCase)
         ''<foo></foo>''
       = Inr (legacyDocumentOf (legacyElementNode ''foo'' [] [] []))
   \<and> beautify (XmlBeautify (\<lambda>_. Inr (legacyDocumentOf (legacyElementNode ''foo'' [] [] []))) asciiLowerCase)
         ''<foo></foo>'' (Some (Data None (Some True)))
       = Inr ''<foo />\<newline>''
   \<and> beautify (XmlBeautify (\<lambda>_. Inr (legacyDocumentOf (legacyElementNode ''foo'' [] [] []))) asciiLowerCase)
         ''<foo></foo>'' (Some (Data None (Some False)))
       = Inr ''<foo></foo>\<newline>''"
  using beautify_foo [of "XmlBeautify (\<lambda>_. Inr doc_foo) asciiLowerCase" "Some ''  ''"]
    beautify_foo [of "XmlBeautify (\<lambda>_. Inr (legacyDocumentOf (legacyElementNode ''foo'' [] [] []))) asciiLowerCase"
      None]
  by simp

text \<open>
  C2. The claim has \<^verbatim>\<open>beautify\<close> return, for the input \<^verbatim>\<open><name>Bob</name>\<close>, exactly
  \<^verbatim>\<open><name>Bob</name>\<close> and a line feed: the end tag at once after the value. On the document
  a host with \<^verbatim>\<open>children\<close> gives for the text, the code returns this. On the document of a
  host that has no \<^verbatim>\<open>children\<close> on XML nodes, which the code's fallback to \<^verbatim>\<open>childNodes\<close> is
  for, the text node of the leaf is in the list walked; its visit, at depth 1, appends the
  indentation after the value, and the code returns \<^verbatim>\<open><name>Bob  </name>\<close> for the indent of
  two spaces, and four spaces between value and end tag for the indent of four.
\<close>

theorem leaf_with_text_on_childNodes:
  "beautify (XmlBeautify (\<lambda>_. Inr doc_name) asciiLowerCase) ''<name>Bob</name>'' None
     = Inr ''<name>Bob</name>\<newline>''
   \<and> beautify (XmlBeautify (\<lambda>_. Inr doc_name_legacy) asciiLowerCase) ''<name>Bob</name>'' None
     = Inr ''<name>Bob  </name>\<newline>''
   \<and> beautify (XmlBeautify (\<lambda>_. Inr doc_name_legacy) asciiLowerCase) ''<name>Bob</name>''
       (Some (Data (Some ''    '') (Some True)))
     = Inr ''<name>Bob    </name>\<newline>''"
proof (intro conjI)
  show "beautify (XmlBeautify (\<lambda>_. Inr doc_name) asciiLowerCase) ''<name>Bob</name>'' None
     = Inr ''<name>Bob</name>\<newline>''"
    by (simp add: beautify_def hasXmlDef_def doc_name_def dom_defs parseInternally_unfold
        class_defs render_defs)
  show "beautify (XmlBeautify (\<lambda>_. Inr doc_name_legacy) asciiLowerCase) ''<name>Bob</name>'' None
     = Inr ''<name>Bob  </name>\<newline>''"
    by (simp add: beautify_def hasXmlDef_def doc_name_legacy_def dom_defs parseInternally_unfold
        class_defs render_defs)
  show "beautify (XmlBeautify (\<lambda>_. Inr doc_name_legacy) asciiLowerCase) ''<name>Bob</name>''
       (Some (Data (Some ''    '') (Some True)))
     = Inr ''<name>Bob    </name>\<newline>''"
    by (simp add: beautify_def hasXmlDef_def doc_name_legacy_def dom_defs parseInternally_unfold
        class_defs render_defs)
qed

text \<open>
  C3. The claim has \<^verbatim>\<open>beautify\<close> return, for the input \<^verbatim>\<open><a><b><c>x</c></b></a>\<close> and the
  indent unit of two spaces, \<^verbatim>\<open><a>\<close>, \<^verbatim>\<open><b>\<close> indented once, \<^verbatim>\<open><c>x</c>\<close> indented twice,
  \<^verbatim>\<open></b>\<close> indented once and \<^verbatim>\<open></a>\<close>, each on a line of its own. On the document a host
  with \<^verbatim>\<open>children\<close> gives, the code returns this. On the document of a host that has no
  \<^verbatim>\<open>children\<close> on XML nodes, every element passes the renderer's test for having no
  children, so each of the three is rendered as a leaf with the value \<^verbatim>\<open>x\<close>, the end tags
  of \<^verbatim>\<open>b\<close> and \<^verbatim>\<open>a\<close> are not indented, and the visit of the text node appends three indent
  units before \<^verbatim>\<open></c>\<close>.
\<close>

theorem nested_elements_on_childNodes:
  "beautify (XmlBeautify (\<lambda>_. Inr doc_abc) asciiLowerCase) ''<a><b><c>x</c></b></a>''
       (Some (Data (Some ''  '') None))
     = Inr ''<a>\<newline>  <b>\<newline>    <c>x</c>\<newline>  </b>\<newline></a>\<newline>''
   \<and> beautify (XmlBeautify (\<lambda>_. Inr doc_abc_legacy) asciiLowerCase) ''<a><b><c>x</c></b></a>''
       (Some (Data (Some ''  '') None))
     = Inr ''<a>x  <b>x    <c>x      </c>\<newline></b>\<newline></a>\<newline>''"
proof (intro conjI)
  show "beautify (XmlBeautify (\<lambda>_. Inr doc_abc) asciiLowerCase) ''<a><b><c>x</c></b></a>''
       (Some (Data (Some ''  '') None))
     = Inr ''<a>\<newline>  <b>\<newline>    <c>x</c>\<newline>  </b>\<newline></a>\<newline>''"
    by (simp add: beautify_def hasXmlDef_def doc_abc_def dom_defs parseInternally_unfold
        class_defs render_defs eval_nat_numeral)
  show "beautify (XmlBeautify (\<lambda>_. Inr doc_abc_legacy) asciiLowerCase) ''<a><b><c>x</c></b></a>''
       (Some (Data (Some ''  '') None))
     = Inr ''<a>x  <b>x    <c>x      </c>\<newline></b>\<newline></a>\<newline>''"
    by (simp add: beautify_def hasXmlDef_def doc_abc_legacy_def dom_defs parseInternally_unfold
        class_defs render_defs eval_nat_numeral)
qed

text \<open>
  C4. When \<^verbatim>\<open><?xml\<close> occurs in the input and \<^verbatim>\<open>beautify\<close> returns, its result is the line
  \<^verbatim>\<open><?xml version="1.0" encoding="E"?>\<close>, a line feed and the rendered tree, where \<open>E\<close> is what
  \<^verbatim>\<open>getEncoding\<close> extracts from the input; the version is the literal 1.0 whatever the input
  declares. When \<^verbatim>\<open><?xml\<close> does not occur, the result is the rendered tree alone. The
  declaration line never decides whether \<^verbatim>\<open>beautify\<close> returns.
\<close>

theorem declaration_line:
  "(sublist ''<?xml'' txt \<and> beautify me txt data = Inr out \<longrightarrow>
      (\<exists>E r. getEncoding me txt = Some E \<and> renderedText me txt data = Inr r
             \<and> out = ''<?xml version=\"1.0\" encoding=\"'' @ E @ ''\"?>'' @ ''\<newline>'' @ r))
   \<and> (\<not> sublist ''<?xml'' txt \<and> beautify me txt data = Inr out \<longrightarrow>
      renderedText me txt data = Inr out)
   \<and> ((\<exists>out. beautify me txt data = Inr out) \<longleftrightarrow> (\<exists>r. renderedText me txt data = Inr r))"
proof (intro conjI impI)
  assume a: "sublist ''<?xml'' txt \<and> beautify me txt data = Inr out"
  then have h: "hasXmlDef txt" by (simp add: hasXmlDef_iff)
  then obtain E where E: "getEncoding me txt = Some E" by (simp add: getEncoding_def Let_def)
  from a h E show "\<exists>E r. getEncoding me txt = Some E \<and> renderedText me txt data = Inr r
             \<and> out = ''<?xml version=\"1.0\" encoding=\"'' @ E @ ''\"?>'' @ ''\<newline>'' @ r"
    by (auto simp: beautify_rendered split: sum.splits)
next
  assume "\<not> sublist ''<?xml'' txt \<and> beautify me txt data = Inr out"
  then show "renderedText me txt data = Inr out"
    by (auto simp: beautify_rendered hasXmlDef_iff split: sum.splits)
next
  show "(\<exists>out. beautify me txt data = Inr out) \<longleftrightarrow> (\<exists>r. renderedText me txt data = Inr r)"
    by (auto simp: beautify_rendered split: sum.splits)
qed

theorem declaration_line_witness:
  "sublist ''<?xml'' ''<?xml version=\"1.1\" encoding=\"ISO-8859-1\"?><a/>''
   \<and> beautify (XmlBeautify (\<lambda>_. Inr doc_a) asciiLowerCase) ''<?xml version=\"1.1\" encoding=\"ISO-8859-1\"?><a/>'' None
       = Inr ''<?xml version=\"1.0\" encoding=\"ISO-8859-1\"?>\<newline><a></a>\<newline>''
   \<and> getEncoding (XmlBeautify (\<lambda>_. Inr doc_a) asciiLowerCase)
         ''<?xml version=\"1.1\" encoding=\"ISO-8859-1\"?><a/>'' = Some ''ISO-8859-1''
   \<and> renderedText (XmlBeautify (\<lambda>_. Inr doc_a) asciiLowerCase) ''<?xml version=\"1.1\" encoding=\"ISO-8859-1\"?><a/>'' None
       = Inr ''<a></a>\<newline>''
   \<and> \<not> sublist ''<?xml'' ''<a/>''
   \<and> beautify (XmlBeautify (\<lambda>_. Inr doc_a) asciiLowerCase) ''<a/>'' None = Inr ''<a></a>\<newline>''
   \<and> renderedText (XmlBeautify (\<lambda>_. Inr doc_a) asciiLowerCase) ''<a/>'' None = Inr ''<a></a>\<newline>''"
proof -
  let ?me = "XmlBeautify (\<lambda>_. Inr doc_a) asciiLowerCase"
  let ?t = "''<?xml version=\"1.1\" encoding=\"ISO-8859-1\"?><a/>''"
  have s1: "sublist ''<?xml'' ?t"
    by (simp add: hasXmlDef_iff [symmetric] hasXmlDef_def)
  have s2: "\<not> sublist ''<?xml'' ''<a/>''"
    by (simp add: hasXmlDef_iff [symmetric] hasXmlDef_def)
  have b1: "beautify ?me ?t None
      = Inr ''<?xml version=\"1.0\" encoding=\"ISO-8859-1\"?>\<newline><a></a>\<newline>''"
    by (simp add: beautify_def hasXmlDef_def getEncoding_def substr_def asciiLowerCase_def
        lowerChar_def doc_a_def dom_defs parseInternally_unfold class_defs render_defs Let_def)
  have b2: "beautify ?me ''<a/>'' None = Inr ''<a></a>\<newline>''"
    by (simp add: beautify_def hasXmlDef_def doc_a_def dom_defs parseInternally_unfold
        class_defs render_defs Let_def)
  have e: "getEncoding ?me ?t = Some ''ISO-8859-1''"
    by (simp add: hasXmlDef_def getEncoding_def substr_def asciiLowerCase_def lowerChar_def Let_def)
  from declaration_line [of ?t ?me None "''<?xml version=\"1.0\" encoding=\"ISO-8859-1\"?>\<newline><a></a>\<newline>''"]
    declaration_line [of "''<a/>''" ?me None "''<a></a>\<newline>''"] s1 s2 b1 b2 e
  show ?thesis by simp
qed

text \<open>
  C5. \<^verbatim>\<open>getEncoding\<close> returns \<^verbatim>\<open>null\<close> exactly when \<^verbatim>\<open><?xml\<close> does not occur in the text.
  As stated, the claim goes on: otherwise the result is the text between the end of the
  first \<^verbatim>\<open>encoding="\<close> and the \<^verbatim>\<open>"?>\<close> that follows it. The code takes the first \<^verbatim>\<open>"?>\<close>
  of the whole text instead: for a declaration without an encoding, followed by an element
  with an attribute \<^verbatim>\<open>encoding\<close> and a processing instruction, the two differ, and the
  code returns the empty string. The text is ASCII, on which the host lowers A to Z.
\<close>

theorem getEncoding_counterexample:
  "sublist ''<?xml'' ''<?xml version=\"1.0\"?><a encoding=\"x\"><?pi a=\"b\"?></a>''
   \<and> getEncoding (XmlBeautify (\<lambda>_. Inr doc_a) asciiLowerCase)
         ''<?xml version=\"1.0\"?><a encoding=\"x\"><?pi a=\"b\"?></a>'' = Some []
   \<and> encodingBetweenMarkers asciiLowerCase
         ''<?xml version=\"1.0\"?><a encoding=\"x\"><?pi a=\"b\"?></a>''
       = ''x\"><?pi a=\"b''"
proof (intro conjI)
  show "sublist ''<?xml'' ''<?xml version=\"1.0\"?><a encoding=\"x\"><?pi a=\"b\"?></a>''"
    by (simp add: hasXmlDef_iff [symmetric] hasXmlDef_def)
  show "getEncoding (XmlBeautify (\<lambda>_. Inr doc_a) asciiLowerCase)
         ''<?xml version=\"1.0\"?><a encoding=\"x\"><?pi a=\"b\"?></a>'' = Some []"
    by (simp add: hasXmlDef_def getEncoding_def substr_def asciiLowerCase_def lowerChar_def Let_def)
  show "encodingBetweenMarkers asciiLowerCase
         ''<?xml version=\"1.0\"?><a encoding=\"x\"><?pi a=\"b\"?></a>''
       = ''x\"><?pi a=\"b''"
    by (simp add: encodingBetweenMarkers_def asciiLowerCase_def lowerChar_def Let_def)
qed

text \<open>
  C5, amended. \<^verbatim>\<open>getEncoding\<close> returns \<^verbatim>\<open>null\<close> exactly when \<^verbatim>\<open><?xml\<close> does not occur in the
  text. Otherwise, with \<open>p\<close> the position of the first \<^verbatim>\<open>encoding="\<close> in the lower-cased text
  and \<open>q\<close> the position of the first \<^verbatim>\<open>"?>\<close> in the text, the result is the code units of the
  text from position \<open>p + 10\<close> up to position \<open>q\<close>, as they stand (none when \<open>q\<close> is not
  beyond \<open>p + 10\<close>); this is so whatever the host's lower-casing is. When the lower-casing
  maps the code units of the text one by one, as it does on ASCII, and \<open>q\<close> is not before
  \<open>p + 10\<close>, the result is the text between the end of the first \<^verbatim>\<open>encoding="\<close>, found
  without regard to case, and the \<^verbatim>\<open>"?>\<close> that follows it.
\<close>

theorem getEncoding_amended:
  "(getEncoding me txt = None \<longleftrightarrow> \<not> sublist ''<?xml'' txt)
   \<and> (sublist ''<?xml'' txt \<and> indexOf (toLowerCase me txt) ''encoding=\"'' = int p
        \<and> indexOf txt ''\"?>'' = int q \<longrightarrow>
        getEncoding me txt = Some (take (q - (p + 10)) (drop (p + 10) txt)))
   \<and> ((\<forall>s. set s \<subseteq> set txt \<longrightarrow> toLowerCase me s = map lc s)
        \<and> sublist ''<?xml'' txt \<and> indexOf (toLowerCase me txt) ''encoding=\"'' = int p
        \<and> indexOf txt ''\"?>'' = int q \<and> p + 10 \<le> q \<longrightarrow>
        getEncoding me txt = Some (encodingBetweenMarkers (toLowerCase me) txt))"
proof -
  have pos: "getEncoding me txt = Some (take (q - (p + 10)) (drop (p + 10) txt))"
    if a: "sublist ''<?xml'' txt" "indexOf (toLowerCase me txt) ''encoding=\"'' = int p"
      "indexOf txt ''\"?>'' = int q" for p q
  proof -
    have n1: "nat (int p + 10) = p + 10" by simp
    have n2: "nat (int q - (int p + 10)) = q - (p + 10)" by simp
    from a have "getEncoding me txt = Some (substr txt (int p + 10) (int q - (int p + 10)))"
      by (simp add: getEncoding_def hasXmlDef_iff Let_def)
    moreover have "substr txt (int p + 10) (int q - (int p + 10))
        = take (nat (int q - (int p + 10))) (drop (nat (int p + 10)) txt)"
      unfolding substr_def Let_def by simp
    ultimately show ?thesis by (simp only: n1 n2)
  qed
  have between: "encodingBetweenMarkers (toLowerCase me) txt = take (q - (p + 10)) (drop (p + 10) txt)"
    if l: "\<forall>s. set s \<subseteq> set txt \<longrightarrow> toLowerCase me s = map lc s"
      and a: "indexOf (toLowerCase me txt) ''encoding=\"'' = int p"
      "indexOf txt ''\"?>'' = int q" "p + 10 \<le> q" for p q
  proof -
    from l have "toLowerCase me txt = map lc txt" by simp
    with a(1) indexOfIgnoringCase_map [OF l subset_refl, of "''encoding=\"''"]
    have "indexOfIgnoringCase (toLowerCase me) txt ''encoding=\"'' = int p" by simp
    then have "drop (nat (indexOfIgnoringCase (toLowerCase me) txt ''encoding=\"'')
                       + length ''encoding=\"'') txt = drop (p + 10) txt"
      by (simp add: eval_nat_numeral)
    moreover from a indexOf_drop [of "txt" "''\"?>''" q "p + 10"]
    have "indexOf (drop (p + 10) txt) ''\"?>'' = int (q - (p + 10))" by simp
    ultimately show ?thesis
      unfolding encodingBetweenMarkers_def Let_def by (simp only: nat_int)
  qed
  show ?thesis
  proof (intro conjI impI)
    show "getEncoding me txt = None \<longleftrightarrow> \<not> sublist ''<?xml'' txt"
      by (simp add: getEncoding_def hasXmlDef_iff Let_def)
  next
    assume "sublist ''<?xml'' txt \<and> indexOf (toLowerCase me txt) ''encoding=\"'' = int p
        \<and> indexOf txt ''\"?>'' = int q"
    then have x: "sublist ''<?xml'' txt"
      and ip: "indexOf (toLowerCase me txt) ''encoding=\"'' = int p"
      and iq: "indexOf txt ''\"?>'' = int q"
      by blast+
    from pos [OF x ip iq]
    show "getEncoding me txt = Some (take (q - (p + 10)) (drop (p + 10) txt))" .
  next
    assume a: "(\<forall>s. set s \<subseteq> set txt \<longrightarrow> toLowerCase me s = map lc s)
        \<and> sublist ''<?xml'' txt \<and> indexOf (toLowerCase me txt) ''encoding=\"'' = int p
        \<and> indexOf txt ''\"?>'' = int q \<and> p + 10 \<le> q"
    then have l: "\<forall>s. set s \<subseteq> set txt \<longrightarrow> toLowerCase me s = map lc s"
      and x: "sublist ''<?xml'' txt"
      and ip: "indexOf (toLowerCase me txt) ''encoding=\"'' = int p"
      and iq: "indexOf txt ''\"?>'' = int q" and le: "p + 10 \<le> q"
      by blast+
    from pos [OF x ip iq] between [OF l ip iq le]
    show "getEncoding me txt = Some (encodingBetweenMarkers (toLowerCase me) txt)"
      by (simp only:)
  qed
qed

theorem getEncoding_amended_witness:
  "sublist ''<?xml'' ''<?xml version=\"1.1\" Encoding=\"ISO-8859-1\"?><a/>''
   \<and> (\<forall>s. toLowerCase (XmlBeautify (\<lambda>_. Inr doc_a) asciiLowerCase) s = map lowerChar s)
   \<and> indexOf (toLowerCase (XmlBeautify (\<lambda>_. Inr doc_a) asciiLowerCase)
                ''<?xml version=\"1.1\" Encoding=\"ISO-8859-1\"?><a/>'') ''encoding=\"'' = int 20
   \<and> indexOf ''<?xml version=\"1.1\" Encoding=\"ISO-8859-1\"?><a/>'' ''\"?>'' = int 40
   \<and> getEncoding (XmlBeautify (\<lambda>_. Inr doc_a) asciiLowerCase)
         ''<?xml version=\"1.1\" Encoding=\"ISO-8859-1\"?><a/>'' = Some ''ISO-8859-1''
   \<and> encodingBetweenMarkers asciiLowerCase ''<?xml version=\"1.1\" Encoding=\"ISO-8859-1\"?><a/>''
       = ''ISO-8859-1''
   \<and> getEncoding (XmlBeautify (\<lambda>_. Inr doc_a) asciiLowerCase) ''<a/>'' = None
   \<and> \<not> sublist ''<?xml'' ''<a/>''"
proof -
  let ?me = "XmlBeautify (\<lambda>_. Inr doc_a) asciiLowerCase"
  let ?t = "''<?xml version=\"1.1\" Encoding=\"ISO-8859-1\"?><a/>''"
  have s: "sublist ''<?xml'' ?t" "\<not> sublist ''<?xml'' ''<a/>''"
    by (simp_all add: hasXmlDef_iff [symmetric] hasXmlDef_def)
  have l: "\<forall>s. toLowerCase ?me s = map lowerChar s"
    by (simp add: asciiLowerCase_def)
  have p: "indexOf (toLowerCase ?me ?t) ''encoding=\"'' = int 20"
    by (simp add: asciiLowerCase_def lowerChar_def Let_def)
  have q: "indexOf ?t ''\"?>'' = int 40"
    by (simp add: Let_def)
  have l': "\<forall>s. set s \<subseteq> set ?t \<longrightarrow> toLowerCase ?me s = map lowerChar s"
    using l by blast
  note inst = getEncoding_amended [of ?me ?t 20 40 lowerChar]
  from inst s(1) p q have g: "getEncoding ?me ?t = Some (take (40 - (20 + 10)) (drop (20 + 10) ?t))"
    by blast
  have le: "(20::nat) + 10 \<le> 40" by simp
  from inst l' s(1) p q le
  have b: "getEncoding ?me ?t = Some (encodingBetweenMarkers (toLowerCase ?me) ?t)"
    by blast
  have tk: "take (40 - (20 + 10)) (drop (20 + 10) ?t) = ''ISO-8859-1''"
    by simp
  from g tk have g': "getEncoding ?me ?t = Some ''ISO-8859-1''"
    by (simp only:)
  have sel: "toLowerCase ?me = asciiLowerCase" by simp
  from b g' have b': "encodingBetweenMarkers asciiLowerCase ?t = ''ISO-8859-1''"
    by (simp only: sel option.inject)
  from getEncoding_amended [of ?me "''<a/>''" 0 0 lowerChar] s(2)
  have n: "getEncoding ?me ''<a/>'' = None" by blast
  from s l p q g' b' n show ?thesis by (simp only: simp_thms)
qed




text \<open>
  C7. As stated, a node that is not an element would be rendered as its character data, with
  no indentation. The renderer reaches such a node only where the host has no \<^verbatim>\<open>children\<close>
  and it walks \<^verbatim>\<open>childNodes\<close>. The call on the text node of \<^verbatim>\<open><name>Bob</name>\<close>, made at
  depth 1 after the start tag and the value, appends the indentation and nothing of the data;
  \<^verbatim>\<open>beautify\<close> then returns \<^verbatim>\<open><name>Bob  </name>\<close>.
\<close>

theorem text_node_counterexample:
  "parseInternally (textNode ''Bob'')
       \<lparr>indentText = ''  '', xmlText = ''<name>Bob'', useSelfClosingElement = False, indentLevel = 1\<rparr>
     = Inr \<lparr>indentText = ''  '', xmlText = ''<name>Bob  '', useSelfClosingElement = False,
            indentLevel = 1\<rparr>
   \<and> beautify (XmlBeautify (\<lambda>_. Inr (legacyDocumentOf
                        (legacyElementNode ''name'' [] [textNode ''Bob''] ''Bob''))) asciiLowerCase)
         ''<name>Bob</name>'' None
       = Inr ''<name>Bob  </name>\<newline>''"
  by (simp add: beautify_def hasXmlDef_def parseInternally_unfold dom_defs class_defs render_defs)

text \<open>
  C7, amended. A node with no tag name gets no rendering of its own: the call returns with the
  depth and the configuration unchanged, anything it appends is made of characters of the
  indent unit, and its outcome is the same whatever the character data of the node is, so
  none of the data is rendered by the visit.
\<close>

theorem text_node_amended:
  "tagName e = None \<and> textContent e = Some s \<longrightarrow>
     (\<exists>out. parseInternally e b = Inr (b\<lparr>xmlText := xmlText b @ out\<rparr>)
            \<and> set out \<subseteq> set (indentText b))
     \<and> parseInternally e b = parseInternally (textNode t) b"
proof
  assume a: "tagName e = None \<and> textContent e = Some s"
  then have "parseInternally e b = Inr (b\<lparr>xmlText := xmlText b @ indentation b\<rparr>)"
    by (simp add: parseInternally_unfold [of e])
  moreover have "parseInternally (textNode t) b = Inr (b\<lparr>xmlText := xmlText b @ indentation b\<rparr>)"
    by (simp add: parseInternally_unfold textNode_def)
  ultimately show "(\<exists>out. parseInternally e b = Inr (b\<lparr>xmlText := xmlText b @ out\<rparr>)
            \<and> set out \<subseteq> set (indentText b))
     \<and> parseInternally e b = parseInternally (textNode t) b"
    using set_indentation [of b] by auto
qed

theorem text_node_amended_witness:
  "tagName (textNode ''Bob'') = None \<and> textContent (textNode ''Bob'') = Some ''Bob''
   \<and> parseInternally (textNode ''Bob'')
         \<lparr>indentText = ''  '', xmlText = ''<a>'', useSelfClosingElement = False, indentLevel = 0\<rparr>
       = parseInternally (textNode ''Alice'')
         \<lparr>indentText = ''  '', xmlText = ''<a>'', useSelfClosingElement = False, indentLevel = 0\<rparr>
   \<and> parseInternally (textNode ''Bob'')
         \<lparr>indentText = ''  '', xmlText = ''<a>'', useSelfClosingElement = False, indentLevel = 0\<rparr>
       = Inr \<lparr>indentText = ''  '', xmlText = ''<a>'', useSelfClosingElement = False, indentLevel = 0\<rparr>"
proof -
  let ?s = "\<lparr>indentText = ''  '', xmlText = ''<a>'', useSelfClosingElement = False, indentLevel = 0\<rparr>"
  have e: "parseInternally (textNode ''Bob'') ?s = Inr ?s"
    by (simp add: parseInternally_unfold textNode_def indentation_def)
  have "tagName (textNode ''Bob'') = None \<and> textContent (textNode ''Bob'') = Some ''Bob''"
    by (simp add: textNode_def)
  with text_node_amended [of "textNode ''Bob''" "''Bob''" ?s "''Alice''"]
  have "parseInternally (textNode ''Bob'') ?s = parseInternally (textNode ''Alice'') ?s"
    by blast
  with e show ?thesis by (simp add: textNode_def)
qed




text \<open>
  C9. A call of the renderer that returns leaves \<^verbatim>\<open>indentLevel\<close> as it found it, and so does
  the loop over the children; on every node on which the renderer does not fail, the call
  does return. The calls made while an element is rendered are those \<open>visits\<close> describes:
  every child of the element is visited, one level down, and a visit of a visit is a visit.
  A call visited \<open>k\<close> levels below another one starts with the depth of that one plus
  \<open>k\<close>, never a negative one when the depth at the start is not negative; when the call on
  the element returns, the visited call returns too, and what it appends is a segment of
  the output of the element, which, at the place where the visited call starts, holds as
  many indent units as the start depth plus \<open>k\<close> and then the start tag of the visited
  element. So the depth is raised by one for the children and lowered by one after them.
\<close>

theorem indentLevel_restored:
  "(parseInternally element b = Inr b' \<longrightarrow> indentLevel b' = indentLevel b)
   \<and> (parseChildren cs b = Inr b'' \<longrightarrow> indentLevel b'' = indentLevel b)
   \<and> (renderable element \<longrightarrow> (\<exists>r. parseInternally element b = Inr r \<and> indentLevel r = indentLevel b))
   \<and> (visits element b k e bv \<longrightarrow> indentLevel bv = indentLevel b + int k)
   \<and> (visits element b k e bv \<and> 0 \<le> indentLevel b \<longrightarrow> 0 \<le> indentLevel bv)
   \<and> (visits element b k e bv \<and> parseInternally element b = Inr res \<longrightarrow>
        (\<exists>rv. parseInternally e bv = Inr rv \<and> prefix (xmlText b) (xmlText bv)
              \<and> prefix (xmlText bv) (xmlText rv) \<and> prefix (xmlText rv) (xmlText res)))
   \<and> (visits element b k e bv \<and> parseInternally element b = Inr res \<and> tagName e = Some tag
        \<and> 0 \<le> indentLevel b \<longrightarrow>
        (\<exists>post. xmlText res = xmlText bv
                  @ concat (replicate (nat (indentLevel b) + k) (indentText b))
                  @ ''<'' @ tag @ post))
   \<and> (parseInternally element b = Inr res \<and> tagName element = Some tg
        \<and> chElements element = Some chs \<and> i < length chs \<longrightarrow>
        (\<exists>bi. visits element b 1 (chs ! i) bi))
   \<and> (visits element b k e bv \<and> visits e bv j e2 b2 \<longrightarrow> visits element b (k + j) e2 b2)"
proof (intro conjI impI)
  assume "parseInternally element b = Inr b'"
  then show "indentLevel b' = indentLevel b"
    using appendsD [OF parseInternally_appends] by simp
next
  assume "parseChildren cs b = Inr b''"
  then show "indentLevel b'' = indentLevel b"
    using appendsD [OF parseChildren_appends'] by simp
next
  assume "renderable element"
  then obtain r where r: "parseInternally element b = Inr r"
    using renderable_returns by blast
  then have "indentLevel r = indentLevel b"
    using appendsD [OF parseInternally_appends] by simp
  with r show "\<exists>r. parseInternally element b = Inr r \<and> indentLevel r = indentLevel b"
    by blast
next
  assume "visits element b k e bv"
  then show "indentLevel bv = indentLevel b + int k"
    using visits_level by simp
next
  assume "visits element b k e bv \<and> 0 \<le> indentLevel b"
  then show "0 \<le> indentLevel bv"
    using visits_level [of element b k e bv] by simp
next
  assume "visits element b k e bv \<and> parseInternally element b = Inr res"
  then show "\<exists>rv. parseInternally e bv = Inr rv \<and> prefix (xmlText b) (xmlText bv)
              \<and> prefix (xmlText bv) (xmlText rv) \<and> prefix (xmlText rv) (xmlText res)"
    using visits_sound [of element b k e bv res] by blast
next
  assume "visits element b k e bv \<and> parseInternally element b = Inr res \<and> tagName e = Some tag
        \<and> 0 \<le> indentLevel b"
  then show "\<exists>post. xmlText res = xmlText bv
                  @ concat (replicate (nat (indentLevel b) + k) (indentText b))
                  @ ''<'' @ tag @ post"
    using visited_start_tag [of element b k e bv res tag] by blast
next
  assume "parseInternally element b = Inr res \<and> tagName element = Some tg
        \<and> chElements element = Some chs \<and> i < length chs"
  then show "\<exists>bi. visits element b 1 (chs ! i) bi"
    using visits_children [of element b res tg chs i] by blast
next
  assume "visits element b k e bv \<and> visits e bv j e2 b2"
  then show "visits element b (k + j) e2 b2"
    using visits_trans [of element b k e bv j e2 b2] by blast
qed

theorem indentLevel_restored_witness:
  "parseInternally (elementNode ''a'' [] [elementNode ''b'' [] [elementNode ''c'' [] [] [] []] [] ''<c/>'']
                      [] ''<b><c/></b>'')
       \<lparr>indentText = ''  '', xmlText = [], useSelfClosingElement = False, indentLevel = 0\<rparr>
     = Inr \<lparr>indentText = ''  '',
            xmlText = ''<a>\<newline>  <b>\<newline>    <c></c>\<newline>  </b>\<newline></a>\<newline>'',
            useSelfClosingElement = False, indentLevel = 0\<rparr>
   \<and> parseInternally (elementNode ''b'' [] [elementNode ''c'' [] [] [] []] [] ''<c/>'')
       \<lparr>indentText = ''  '', xmlText = ''<a>\<newline>'', useSelfClosingElement = False, indentLevel = 1\<rparr>
     = Inr \<lparr>indentText = ''  '', xmlText = ''<a>\<newline>  <b>\<newline>    <c></c>\<newline>  </b>\<newline>'',
            useSelfClosingElement = False, indentLevel = 1\<rparr>
   \<and> parseChildren [elementNode ''c'' [] [] [] [], elementNode ''c'' [] [] [] []]
       \<lparr>indentText = ''  '', xmlText = [], useSelfClosingElement = True, indentLevel = 2\<rparr>
     = Inr \<lparr>indentText = ''  '', xmlText = ''    <c />\<newline>    <c />\<newline>'',
            useSelfClosingElement = True, indentLevel = 2\<rparr>
   \<and> renderable (elementNode ''b'' [] [elementNode ''c'' [] [] [] []] [] ''<c/>'')
   \<and> visits (elementNode ''a'' [] [elementNode ''b'' [] [elementNode ''c'' [] [] [] []] [] ''<c/>'']
                  [] ''<b><c/></b>'')
         \<lparr>indentText = ''  '', xmlText = [], useSelfClosingElement = False, indentLevel = 0\<rparr>
         1 (elementNode ''b'' [] [elementNode ''c'' [] [] [] []] [] ''<c/>'')
         \<lparr>indentText = ''  '', xmlText = ''<a>\<newline>'', useSelfClosingElement = False, indentLevel = 1\<rparr>
   \<and> visits (elementNode ''b'' [] [elementNode ''c'' [] [] [] []] [] ''<c/>'')
         \<lparr>indentText = ''  '', xmlText = ''<a>\<newline>'', useSelfClosingElement = False, indentLevel = 1\<rparr>
         1 (elementNode ''c'' [] [] [] [])
         \<lparr>indentText = ''  '', xmlText = ''<a>\<newline>  <b>\<newline>'', useSelfClosingElement = False,
            indentLevel = 2\<rparr>
   \<and> visits (elementNode ''a'' [] [elementNode ''b'' [] [elementNode ''c'' [] [] [] []] [] ''<c/>'']
                  [] ''<b><c/></b>'')
         \<lparr>indentText = ''  '', xmlText = [], useSelfClosingElement = False, indentLevel = 0\<rparr>
         (1 + 1) (elementNode ''c'' [] [] [] [])
         \<lparr>indentText = ''  '', xmlText = ''<a>\<newline>  <b>\<newline>'', useSelfClosingElement = False,
            indentLevel = 2\<rparr>
   \<and> tagName (elementNode ''b'' [] [elementNode ''c'' [] [] [] []] [] ''<c/>'') = Some ''b''
   \<and> (\<exists>post. ''<a>\<newline>  <b>\<newline>    <c></c>\<newline>  </b>\<newline></a>\<newline>''
              = ''<a>\<newline>'' @ concat (replicate (nat 0 + 1) ''  '') @ ''<'' @ ''b'' @ post)
   \<and> prefix ''<a>\<newline>  <b>\<newline>    <c></c>\<newline>  </b>\<newline>''
         ''<a>\<newline>  <b>\<newline>    <c></c>\<newline>  </b>\<newline></a>\<newline>''
   \<and> (\<exists>bi. visits (elementNode ''a'' [] [elementNode ''b'' [] [elementNode ''c'' [] [] [] []] [] ''<c/>'']
                       [] ''<b><c/></b>'')
              \<lparr>indentText = ''  '', xmlText = [], useSelfClosingElement = False, indentLevel = 0\<rparr>
              1 ([elementNode ''b'' [] [elementNode ''c'' [] [] [] []] [] ''<c/>''] ! 0) bi)
   \<and> indentLevel \<lparr>indentText = ''  '', xmlText = ''<a>\<newline>'', useSelfClosingElement = False,
                    indentLevel = 1\<rparr>
       = indentLevel \<lparr>indentText = ''  '', xmlText = [], useSelfClosingElement = False, indentLevel = 0\<rparr>
         + int 1
   \<and> 0 \<le> indentLevel \<lparr>indentText = ''  '', xmlText = ''<a>\<newline>'', useSelfClosingElement = False,
                         indentLevel = 1\<rparr>"
proof -
  let ?ec = "elementNode ''c'' [] [] [] []"
  let ?eb = "elementNode ''b'' [] [?ec] [] ''<c/>''"
  let ?ea = "elementNode ''a'' [] [?eb] [] ''<b><c/></b>''"
  let ?sa = "\<lparr>indentText = ''  '', xmlText = [], useSelfClosingElement = False, indentLevel = 0\<rparr>"
  let ?sb = "\<lparr>indentText = ''  '', xmlText = ''<a>\<newline>'', useSelfClosingElement = False, indentLevel = 1\<rparr>"
  let ?sc = "\<lparr>indentText = ''  '', xmlText = ''<a>\<newline>  <b>\<newline>'', useSelfClosingElement = False,
            indentLevel = 2\<rparr>"
  let ?ra = "\<lparr>indentText = ''  '',
            xmlText = ''<a>\<newline>  <b>\<newline>    <c></c>\<newline>  </b>\<newline></a>\<newline>'',
            useSelfClosingElement = False, indentLevel = 0\<rparr>"
  let ?rb = "\<lparr>indentText = ''  '', xmlText = ''<a>\<newline>  <b>\<newline>    <c></c>\<newline>  </b>\<newline>'',
            useSelfClosingElement = False, indentLevel = 1\<rparr>"
  have ra: "parseInternally ?ea ?sa = Inr ?ra"
    by (simp add: parseInternally_unfold dom_defs class_defs render_defs eval_nat_numeral)
  have rb: "parseInternally ?eb ?sb = Inr ?rb"
    by (simp add: parseInternally_unfold dom_defs class_defs render_defs eval_nat_numeral)
  have k: "parseChildren [?ec, ?ec]
       \<lparr>indentText = ''  '', xmlText = [], useSelfClosingElement = True, indentLevel = 2\<rparr>
     = Inr \<lparr>indentText = ''  '', xmlText = ''    <c />\<newline>    <c />\<newline>'',
            useSelfClosingElement = True, indentLevel = 2\<rparr>"
    by (simp add: parseInternally_unfold dom_defs class_defs render_defs eval_nat_numeral)
  have "renderable ?ec"
    by (subst renderable.simps) (simp add: dom_defs chElements_def)
  then have rn: "renderable ?eb"
    by (subst renderable.simps) (simp add: elementNode_def [of "''b''"] chElements_def)
  have "visits ?eb ?sb 0 ?eb ?sb" by (rule visits_here)
  then have va: "visits ?ea ?sa 1 ?eb ?sb"
    using visits_below [of ?ea "[]" "''a''" "[]" ?eb "[]" ?sa ?sb 0 ?eb ?sb]
    by (simp add: dom_defs class_defs render_defs)
  have "visits ?ec ?sc 0 ?ec ?sc" by (rule visits_here)
  then have vb: "visits ?eb ?sb 1 ?ec ?sc"
    using visits_below [of ?eb "[]" "''b''" "[]" ?ec "[]" ?sb ?sc 0 ?ec ?sc]
    by (simp add: dom_defs class_defs render_defs)
  have t: "tagName ?eb = Some ''b''" "tagName ?ea = Some ''a''" "chElements ?ea = Some [?eb]"
    by (simp_all add: dom_defs chElements_def)
  note at_a = indentLevel_restored [of ?ea ?sa ?ra "[]" ?sa 1 ?eb ?sb ?ra "''b''" "''a''" "[?eb]" 0
      1 ?ec ?sc]
  from at_a va vb have vc: "visits ?ea ?sa (1 + 1) ?ec ?sc" by blast
  from at_a va ra t have post: "\<exists>post. xmlText ?ra = xmlText ?sb
      @ concat (replicate (nat (indentLevel ?sa) + 1) (indentText ?sa)) @ ''<'' @ ''b'' @ post"
    by simp
  from at_a va ra rb have pre: "prefix (xmlText ?rb) (xmlText ?ra)"
    by auto
  from at_a ra t have ch: "\<exists>bi. visits ?ea ?sa 1 ([?eb] ! 0) bi"
    by simp
  from at_a va have lv: "indentLevel ?sb = indentLevel ?sa + int 1" "0 \<le> indentLevel ?sb"
    by simp_all
  from ra rb k rn va vb vc t(1) post pre ch lv show ?thesis
    by (simp only: simp_thms BuildInfo.select_convs)
qed

text \<open>
  C10. With a configuration whose indent is the empty string, or is left out, \<^verbatim>\<open>beautify\<close>
  does what it does with the indent of two spaces: the empty string does not give
  unindented output. An indent that is not empty is the one used.
\<close>

theorem empty_indent_is_default:
  "beautify me txt (Some (Data (Some []) usc)) = beautify me txt (Some (Data (Some ''  '') usc))
   \<and> beautify me txt (Some (Data None usc)) = beautify me txt (Some (Data (Some ''  '') usc))
   \<and> (parser me ''<a><b><c>x</c></b></a>'' = Inr doc_abc \<longrightarrow>
        beautify me ''<a><b><c>x</c></b></a>'' (Some (Data (Some []) usc))
          = Inr ''<a>\<newline>  <b>\<newline>    <c>x</c>\<newline>  </b>\<newline></a>\<newline>''
        \<and> beautify me ''<a><b><c>x</c></b></a>'' (Some (Data (Some ''-'') usc))
          = Inr ''<a>\<newline>-<b>\<newline>--<c>x</c>\<newline>-</b>\<newline></a>\<newline>'')"
proof (intro conjI impI)
  show "beautify me txt (Some (Data (Some []) usc)) = beautify me txt (Some (Data (Some ''  '') usc))"
    by (cases "parser me txt") (simp_all add: beautify_def)
  show "beautify me txt (Some (Data None usc)) = beautify me txt (Some (Data (Some ''  '') usc))"
    by (cases "parser me txt") (simp_all add: beautify_def)
next
  assume p: "parser me ''<a><b><c>x</c></b></a>'' = Inr doc_abc"
  then show "beautify me ''<a><b><c>x</c></b></a>'' (Some (Data (Some []) usc))
          = Inr ''<a>\<newline>  <b>\<newline>    <c>x</c>\<newline>  </b>\<newline></a>\<newline>''"
    by (simp add: beautify_def hasXmlDef_def doc_abc_def dom_defs parseInternally_unfold
        class_defs render_defs Let_def eval_nat_numeral)
  from p show "beautify me ''<a><b><c>x</c></b></a>'' (Some (Data (Some ''-'') usc))
          = Inr ''<a>\<newline>-<b>\<newline>--<c>x</c>\<newline>-</b>\<newline></a>\<newline>''"
    by (simp add: beautify_def hasXmlDef_def doc_abc_def dom_defs parseInternally_unfold
        class_defs render_defs Let_def eval_nat_numeral)
qed

theorem empty_indent_is_default_witness:
  "parser (XmlBeautify (\<lambda>_. Inr doc_abc) asciiLowerCase) ''<a><b><c>x</c></b></a>'' = Inr doc_abc
   \<and> beautify (XmlBeautify (\<lambda>_. Inr doc_abc) asciiLowerCase) ''<a><b><c>x</c></b></a>'' (Some (Data (Some []) None))
       = Inr ''<a>\<newline>  <b>\<newline>    <c>x</c>\<newline>  </b>\<newline></a>\<newline>''
   \<and> beautify (XmlBeautify (\<lambda>_. Inr doc_abc) asciiLowerCase) ''<a><b><c>x</c></b></a>'' (Some (Data (Some ''-'') None))
       = Inr ''<a>\<newline>-<b>\<newline>--<c>x</c>\<newline>-</b>\<newline></a>\<newline>''
   \<and> beautify (XmlBeautify (\<lambda>_. Inr doc_abc) asciiLowerCase) ''<a><b><c>x</c></b></a>'' (Some (Data (Some []) None))
       = beautify (XmlBeautify (\<lambda>_. Inr doc_abc) asciiLowerCase) ''<a><b><c>x</c></b></a>'' (Some (Data (Some ''  '') None))"
  using empty_indent_is_default [of "XmlBeautify (\<lambda>_. Inr doc_abc) asciiLowerCase" "''<a><b><c>x</c></b></a>''" None]
  by auto

end
